theory Spec2Isabelle
  imports Main "HOL-Library.Word" "HOL-Library.Multiset"
begin

section \<open>Go values and channels\<close>

text \<open>
  The examples of \<^verbatim>\<open>05-advanced/02-concurrency\<close> are goroutines that talk over
  channels. A Go \<^verbatim>\<open>int\<close> is a 64-bit two's-complement integer (on the 64-bit
  platforms): \<open>+\<close> and \<open>*\<close> wrap, comparisons read the signed value.

  A channel is its buffer, its capacity and its closed flag. An operation on a
  channel either proceeds, or blocks the goroutine (the goroutine stays where it
  is), or panics. Receiving yields the pair \<^verbatim>\<open>(v, ok)\<close> of Go's
  \<^verbatim>\<open>v, ok := <-ch\<close>; on a closed and drained channel it is the zero value of
  the element type and \<open>False\<close>.
\<close>

type_synonym go_int = "64 word"

datatype panic = SendOnClosedChannel | CloseOfClosedChannel | IntegerDivideByZero

datatype 'a attempt = Proceeds 'a | Blocks | Panics panic

record 'a chan =
  buf :: "'a list"
  cap :: nat
  closed :: bool

definition make_chan :: "nat \<Rightarrow> 'a chan" where
  "make_chan n = \<lparr>buf = [], cap = n, closed = False\<rparr>"

definition chan_send :: "'a \<Rightarrow> 'a chan \<Rightarrow> 'a chan attempt" where
  "chan_send v c =
     (if closed c then Panics SendOnClosedChannel
      else if length (buf c) < cap c then Proceeds (c\<lparr>buf := buf c @ [v]\<rparr>)
      else Blocks)"

definition chan_recv :: "'a \<Rightarrow> 'a chan \<Rightarrow> (('a \<times> bool) \<times> 'a chan) attempt" where
  "chan_recv zero c =
     (case buf c of
        v # vs \<Rightarrow> Proceeds ((v, True), c\<lparr>buf := vs\<rparr>)
      | [] \<Rightarrow> if closed c then Proceeds ((zero, False), c) else Blocks)"

definition chan_close :: "'a chan \<Rightarrow> 'a chan attempt" where
  "chan_close c = (if closed c then Panics CloseOfClosedChannel else Proceeds (c\<lparr>closed := True\<rparr>))"

section \<open>Schedules\<close>

text \<open>
  A program of several goroutines is a function \<open>nxt\<close> from a state to the list of
  its successors, one for every goroutine that can take its next step there (a blocked
  goroutine contributes none). A schedule is a list of numbers; at every step the
  scheduler's number picks one of the enabled steps, so the schedules range over all
  interleavings. A state with no successor is left as it is: the program has ended
  there (or is stuck).
\<close>

fun run :: "('s \<Rightarrow> 's list) \<Rightarrow> nat list \<Rightarrow> 's \<Rightarrow> 's" where
  "run nxt [] s = s"
| "run nxt (c # cs) s =
     (case nxt s of [] \<Rightarrow> s | t # ts \<Rightarrow> run nxt cs ((t # ts) ! (c mod length (t # ts))))"

section \<open>The parallel computation (goroutines.go, lines 174--229)\<close>

text \<open>
  \<^verbatim>\<open>cpuIntensiveTask(id, n)\<close>: the loop \<^verbatim>\<open>for i := 0; i < n; i++ { result += i * i }\<close>.
  The \<^verbatim>\<open>id\<close> is only printed.
\<close>

function cpu_loop :: "go_int \<Rightarrow> go_int \<Rightarrow> go_int \<Rightarrow> go_int" where
  "cpu_loop i n result = (if i <s n then cpu_loop (i + 1) n (result + i * i) else result)"
  by pat_completeness auto

lemma sint_succ_below: "(i :: go_int) <s n \<Longrightarrow> sint (i + 1) = sint i + 1"
proof -
  assume "i <s n"
  then have "sint i < sint n" by (simp add: word_sless_alt)
  moreover have "sint n < 2 ^ 63" using sint_lt [of n] by simp
  moreover have "- (2 ^ 63) \<le> sint i" using sint_ge [of i] by simp
  ultimately have "signed_take_bit 63 (sint i + 1) = sint i + 1"
    by (simp add: signed_take_bit_int_eq_self)
  then show ?thesis by (simp add: sint_word_add)
qed

termination cpu_loop
  by (relation "measure (\<lambda>(i, n, r). nat (sint n - sint i))")
     (auto simp: sint_succ_below word_sless_alt)

declare cpu_loop.simps [simp del]

definition cpuIntensiveTask :: "go_int \<Rightarrow> go_int \<Rightarrow> go_int" where
  "cpuIntensiveTask tid n = cpu_loop 0 n 0"

text \<open>
  The serial loop of \<^verbatim>\<open>parallelComputingExample\<close> (lines 200--203), with the constants
  \<^verbatim>\<open>numTasks\<close> and \<^verbatim>\<open>workSize\<close> as parameters.
\<close>

function serial_loop :: "nat \<Rightarrow> nat \<Rightarrow> go_int \<Rightarrow> go_int \<Rightarrow> go_int" where
  "serial_loop i numTasks workSize serialResult =
     (if i < numTasks
      then serial_loop (Suc i) numTasks workSize (serialResult + cpuIntensiveTask (of_nat i) workSize)
      else serialResult)"
  by pat_completeness auto
termination
  by (relation "measure (\<lambda>(i, n, w, r). n - i)") auto

declare serial_loop.simps [simp del]

text \<open>
  The parallel part (lines 210--222). The main goroutine first starts \<^verbatim>\<open>numTasks\<close>
  goroutines (\<open>spawn_i\<close> is the loop variable; \<open>live\<close> holds the \<^verbatim>\<open>id\<close> of every
  goroutine started and not yet finished), then receives \<^verbatim>\<open>numTasks\<close> values from
  the channel \<^verbatim>\<open>results\<close> of capacity \<^verbatim>\<open>numTasks\<close> (\<open>recv_i\<close> is the loop variable)
  and adds them up. A started goroutine computes its task and sends the result.
\<close>

record par_state =
  spawn_i :: nat
  live :: "go_int list"
  results :: "go_int chan"
  recv_i :: nat
  parallelResult :: go_int
  crashed :: "panic option"

definition par_init :: "nat \<Rightarrow> par_state" where
  "par_init numTasks =
     \<lparr>spawn_i = 0, live = [], results = make_chan numTasks, recv_i = 0,
      parallelResult = 0, crashed = None\<rparr>"

definition par_main :: "nat \<Rightarrow> par_state \<Rightarrow> par_state list" where
  "par_main numTasks s =
     (if spawn_i s < numTasks
      then [s\<lparr>spawn_i := Suc (spawn_i s), live := live s @ [of_nat (spawn_i s)]\<rparr>]
      else if recv_i s < numTasks
      then (case chan_recv 0 (results s) of
              Proceeds ((v, ok), c) \<Rightarrow>
                [s\<lparr>results := c, recv_i := Suc (recv_i s), parallelResult := parallelResult s + v\<rparr>]
            | Blocks \<Rightarrow> []
            | Panics p \<Rightarrow> [s\<lparr>crashed := Some p\<rparr>])
      else [])"

definition par_task :: "go_int \<Rightarrow> nat \<Rightarrow> par_state \<Rightarrow> par_state list" where
  "par_task workSize k s =
     (case chan_send (cpuIntensiveTask (live s ! k) workSize) (results s) of
        Proceeds c \<Rightarrow> [s\<lparr>results := c, live := take k (live s) @ drop (Suc k) (live s)\<rparr>]
      | Blocks \<Rightarrow> []
      | Panics p \<Rightarrow> [s\<lparr>crashed := Some p\<rparr>])"

definition par_next :: "nat \<Rightarrow> go_int \<Rightarrow> par_state \<Rightarrow> par_state list" where
  "par_next numTasks workSize s =
     (if crashed s \<noteq> None then []
      else par_main numTasks s @ concat (map (\<lambda>k. par_task workSize k s) [0..<length (live s)]))"


subsection \<open>Invariants and termination of scheduled programs\<close>

lemma run_invariant:
  assumes "\<And>s t. I s \<Longrightarrow> t \<in> set (nxt s) \<Longrightarrow> I t" and "I s"
  shows "I (run nxt cs s)"
  using assms(2)
proof (induction cs arbitrary: s)
  case Nil
  then show ?case by simp
next
  case (Cons c cs)
  show ?case
  proof (cases "nxt s")
    case Nil
    with Cons.prems show ?thesis by simp
  next
    case (Cons t ts)
    have "(t # ts) ! (c mod length (t # ts)) \<in> set (nxt s)"
      unfolding Cons [symmetric] using Cons by (intro nth_mem) simp
    with assms(1) Cons.prems have "I ((t # ts) ! (c mod length (t # ts)))" by blast
    with Cons.IH Cons show ?thesis by simp
  qed
qed

lemma run_quiescent:
  assumes step: "\<And>s t. I s \<Longrightarrow> t \<in> set (nxt s) \<Longrightarrow> I t \<and> m t < (m s :: nat)"
    and "I s" and "m s \<le> length cs"
  shows "nxt (run nxt cs s) = []"
  using assms(2,3)
proof (induction cs arbitrary: s)
  case Nil
  then have "m s = 0" by simp
  show ?case
  proof (cases "nxt s")
    case Nil
    then show ?thesis by simp
  next
    case (Cons t ts)
    then have "t \<in> set (nxt s)" by simp
    with step Nil.prems(1) have "m t < m s" by blast
    with \<open>m s = 0\<close> show ?thesis by simp
  qed
next
  case (Cons c cs)
  show ?case
  proof (cases "nxt s")
    case Nil
    then show ?thesis by simp
  next
    case (Cons t ts)
    let ?u = "(t # ts) ! (c mod length (t # ts))"
    have "?u \<in> set (nxt s)"
      unfolding Cons [symmetric] using Cons by (intro nth_mem) simp
    with step Cons.prems(1) have "I ?u" "m ?u < m s" by blast+
    with Cons.prems(2) have "m ?u \<le> length cs" by simp
    with Cons.IH \<open>I ?u\<close> have "nxt (run nxt cs ?u) = []" by blast
    with Cons show ?thesis by simp
  qed
qed


subsection \<open>The parallel total is the serial total\<close>

definition task_sum :: "go_int \<Rightarrow> go_int list \<Rightarrow> go_int" where
  "task_sum workSize ids = sum_list (map (\<lambda>i. cpuIntensiveTask i workSize) ids)"

definition par_inv :: "nat \<Rightarrow> go_int \<Rightarrow> par_state \<Rightarrow> bool" where
  "par_inv numTasks workSize s \<longleftrightarrow>
     crashed s = None \<and> spawn_i s \<le> numTasks \<and> cap (results s) = numTasks \<and>
     \<not> closed (results s) \<and>
     recv_i s + length (buf (results s)) + length (live s) = spawn_i s \<and>
     parallelResult s + sum_list (buf (results s)) + task_sum workSize (live s)
       + task_sum workSize (map of_nat [spawn_i s..<numTasks])
       = task_sum workSize (map of_nat [0..<numTasks])"

definition par_measure :: "nat \<Rightarrow> par_state \<Rightarrow> nat" where
  "par_measure numTasks s = 2 * (numTasks - spawn_i s) + length (live s) + (numTasks - recv_i s)"

lemma serial_loop_sum:
  "serial_loop i numTasks workSize acc = acc + task_sum workSize (map of_nat [i..<numTasks])"
proof (induction i numTasks workSize acc rule: serial_loop.induct)
  case (1 i numTasks workSize acc)
  show ?case
  proof (cases "i < numTasks")
    case True
    then have "[i..<numTasks] = i # [Suc i..<numTasks]" by (simp add: upt_conv_Cons)
    with True "1" show ?thesis
      by (subst serial_loop.simps) (simp add: task_sum_def add.assoc)
  next
    case False
    then show ?thesis by (subst serial_loop.simps) (simp add: task_sum_def)
  qed
qed

lemma task_sum_remove:
  "k < length ids \<Longrightarrow>
   task_sum w (take k ids @ drop (Suc k) ids) + cpuIntensiveTask (ids ! k) w = task_sum w ids"
proof -
  assume "k < length ids"
  then have "ids = take k ids @ ids ! k # drop (Suc k) ids" by (rule id_take_nth_drop)
  then have "task_sum w ids = task_sum w (take k ids @ ids ! k # drop (Suc k) ids)" by simp
  then show ?thesis by (simp add: task_sum_def add.assoc add.commute)
qed

lemma par_init_inv: "par_inv numTasks workSize (par_init numTasks)"
  by (simp add: par_inv_def par_init_def make_chan_def task_sum_def)


lemma par_main_step:
  assumes inv: "par_inv numTasks workSize s" and t: "t \<in> set (par_main numTasks s)"
  shows "par_inv numTasks workSize t \<and> par_measure numTasks t < par_measure numTasks s"
proof (cases "spawn_i s < numTasks")
  case True
  then have upt: "[spawn_i s..<numTasks] = spawn_i s # [Suc (spawn_i s)..<numTasks]"
    by (simp add: upt_conv_Cons)
  from True t have t': "t = s\<lparr>spawn_i := Suc (spawn_i s), live := live s @ [of_nat (spawn_i s)]\<rparr>"
    by (simp add: par_main_def)
  have "par_measure numTasks t < par_measure numTasks s"
    using True by (simp add: t' par_measure_def)
  moreover have "par_inv numTasks workSize t"
    using inv True unfolding par_inv_def t' upt
    by (simp add: task_sum_def add.assoc)
  ultimately show ?thesis by simp
next
  case False
  from inv have op: "\<not> closed (results s)" by (simp add: par_inv_def)
  from False t have r: "recv_i s < numTasks"
    by (auto simp: par_main_def split: if_splits)
  from False r t op obtain v vs where b: "buf (results s) = v # vs"
    and t': "t = s\<lparr>results := (results s)\<lparr>buf := vs\<rparr>, recv_i := Suc (recv_i s),
                   parallelResult := parallelResult s + v\<rparr>"
    by (cases "buf (results s)") (auto simp: par_main_def chan_recv_def)
  have "par_measure numTasks t < par_measure numTasks s"
    using r by (simp add: t' par_measure_def)
  moreover have "par_inv numTasks workSize t"
    using inv unfolding par_inv_def t' b
    by (simp add: add.assoc)
  ultimately show ?thesis by simp
qed

lemma par_task_step:
  assumes inv: "par_inv numTasks workSize s" and k: "k < length (live s)"
    and t: "t \<in> set (par_task workSize k s)"
  shows "par_inv numTasks workSize t \<and> par_measure numTasks t < par_measure numTasks s"
proof -
  from inv have open_: "\<not> closed (results s)" by (simp add: par_inv_def)
  from inv k have room: "length (buf (results s)) < cap (results s)"
    by (simp add: par_inv_def)
  from open_ room t
  have t': "t = s\<lparr>results := (results s)\<lparr>buf := buf (results s) @ [cpuIntensiveTask (live s ! k) workSize]\<rparr>,
                 live := take k (live s) @ drop (Suc k) (live s)\<rparr>"
    by (simp add: par_task_def chan_send_def)
  have len: "length (take k (live s) @ drop (Suc k) (live s)) + 1 = length (live s)"
    using k by simp
  have sum: "task_sum workSize (live s) = task_sum workSize (take k (live s) @ drop (Suc k) (live s))
               + cpuIntensiveTask (live s ! k) workSize"
    using k by (simp add: task_sum_remove)
  have "par_measure numTasks t < par_measure numTasks s"
    using len unfolding t' par_measure_def by simp
  moreover have "par_inv numTasks workSize t"
    using inv len unfolding par_inv_def t' sum
    by (simp add: add.assoc add.left_commute)
  ultimately show ?thesis by simp
qed

lemma par_next_step:
  assumes "par_inv numTasks workSize s" and "t \<in> set (par_next numTasks workSize s)"
  shows "par_inv numTasks workSize t \<and> par_measure numTasks t < par_measure numTasks s"
proof -
  from assms(2) have "t \<in> set (par_main numTasks s) \<or>
      (\<exists>k < length (live s). t \<in> set (par_task workSize k s))"
    by (auto simp: par_next_def split: if_splits)
  with assms(1) show ?thesis
    using par_main_step par_task_step by blast
qed

lemma par_quiescent_done:
  assumes "par_inv numTasks workSize s" and "par_next numTasks workSize s = []"
  shows "recv_i s = numTasks"
proof (rule ccontr)
  assume neq: "recv_i s \<noteq> numTasks"
  from assms(1) have c: "crashed s = None" by (simp add: par_inv_def)
  with assms(2) have main: "par_main numTasks s = []"
    and tasks: "\<forall>k < length (live s). par_task workSize k s = []"
    by (auto simp: par_next_def)
  from main have sp: "\<not> spawn_i s < numTasks" by (auto simp: par_main_def split: if_splits)
  have "live s = []"
  proof (cases "live s")
    case Nil
    then show ?thesis .
  next
    case (Cons x xs)
    with tasks have "par_task workSize 0 s = []" by simp
    moreover from assms(1) Cons
    have "\<not> closed (results s)" "length (buf (results s)) < cap (results s)"
      by (simp_all add: par_inv_def)
    ultimately show ?thesis by (simp add: par_task_def chan_send_def)
  qed
  with assms(1) sp neq have "recv_i s < numTasks" "buf (results s) \<noteq> []"
    by (auto simp: par_inv_def)
  with main sp show False
    by (auto simp: par_main_def chan_recv_def split: list.splits)
qed

lemma par_done_result:
  assumes "par_inv numTasks workSize s" and "recv_i s = numTasks"
  shows "parallelResult s = serial_loop 0 numTasks workSize 0"
proof -
  from assms have "spawn_i s = numTasks \<and> length (buf (results s)) = 0 \<and> length (live s) = 0"
    unfolding par_inv_def by arith
  then have "spawn_i s = numTasks" "buf (results s) = []" "live s = []" by simp_all
  with assms(1) show ?thesis
    by (simp add: par_inv_def serial_loop_sum task_sum_def)
qed


text \<open>
  Claim C10. Under every schedule, the program never panics; whenever the main goroutine
  has received its \<^verbatim>\<open>numTasks\<close> values, \<^verbatim>\<open>parallelResult\<close> equals the
  \<^verbatim>\<open>serialResult\<close> of the serial loop; and after at most \<open>3 * numTasks\<close> steps it has
  received them, whatever the order in which the goroutines finished. This holds for every
  task count and work size, in particular for the source's 8 and 1000000. The value of
  \<^verbatim>\<open>cpuIntensiveTask(id, n)\<close> does not depend on \<^verbatim>\<open>id\<close>.
\<close>

theorem parallel_equals_serial:
  "(let s = run (par_next numTasks workSize) sched (par_init numTasks) in
      crashed s = None \<and>
      (recv_i s = numTasks \<longrightarrow> parallelResult s = serial_loop 0 numTasks workSize 0) \<and>
      (3 * numTasks \<le> length sched \<longrightarrow> recv_i s = numTasks)) \<and>
   cpuIntensiveTask tid workSize = cpuIntensiveTask tid' workSize"
proof -
  let ?s = "run (par_next numTasks workSize) sched (par_init numTasks)"
  have inv: "par_inv numTasks workSize ?s"
    using par_next_step par_init_inv
    by (rule run_invariant [where I = "par_inv numTasks workSize", OF conjunct1])
  have live: "recv_i ?s = numTasks" if "3 * numTasks \<le> length sched"
  proof -
    have "par_measure numTasks (par_init numTasks) \<le> length sched"
      using that by (simp add: par_measure_def par_init_def)
    then have "par_next numTasks workSize ?s = []"
      using par_next_step par_init_inv
      by (intro run_quiescent [where I = "par_inv numTasks workSize" and m = "par_measure numTasks"]) 
    with inv show ?thesis by (rule par_quiescent_done)
  qed
  from inv have "crashed ?s = None" by (simp add: par_inv_def)
  with inv live par_done_result show ?thesis
    by (simp add: Let_def cpuIntensiveTask_def)
qed

theorem parallel_equals_serial_witness:
  "3 * 8 \<le> length (replicate 24 (0::nat)) \<and>
   recv_i (run (par_next 8 1000000) (replicate 24 0) (par_init 8)) = 8 \<and>
   parallelResult (run (par_next 8 1000000) (replicate 24 0) (par_init 8))
     = serial_loop 0 8 1000000 0"
  using parallel_equals_serial [of 8 1000000 "replicate 24 0"]
  by (simp add: Let_def)


end
